theory Spec2Isabelle
  imports Complex_Main "HOL-Library.Multiset"
begin

section \<open>Consensus merging: \<open>combineAllPossible\<close>\<close>

text \<open>
  \<open>finalResult\<close> is a JavaScript array of one-character strings.  An element that was never
  written is \<open>undefined\<close>, which is \<open>None\<close> here; a write past the end extends the array and
  leaves holes; \<open>join('')\<close> renders holes as the empty string.
\<close>

definition array_get :: "'a option list \<Rightarrow> nat \<Rightarrow> 'a option" where
  "array_get xs i = (if i < length xs then xs ! i else None)"

definition array_set :: "'a option list \<Rightarrow> nat \<Rightarrow> 'a \<Rightarrow> 'a option list" where
  "array_set xs i v =
     (if i < length xs then xs[i := Some v]
      else xs @ replicate (i - length xs) None @ [Some v])"

definition array_join :: "char option list \<Rightarrow> string" where
  "array_join xs = concat (map (\<lambda>c. case c of None \<Rightarrow> [] | Some ch \<Rightarrow> [ch]) xs)"

text \<open>
  The body of the inner \<open>forEach((char, index) => ...)\<close>.  The elements come from
  \<open>split('')\<close> and are never the empty string, so \<open>!finalResult[index]\<close> holds exactly when
  the element is \<open>undefined\<close>.
\<close>

definition merge_char :: "char \<times> nat \<Rightarrow> char option list \<Rightarrow> char option list" where
  "merge_char ci finalResult =
     (case ci of (ch, index) \<Rightarrow>
        if array_get finalResult index = None \<or> array_get finalResult index = Some (CHR ''?'')
        then array_set finalResult index (if ch = CHR ''?'' then CHR ''?'' else ch)
        else finalResult)"

text \<open>The body of the outer \<open>forEach(result => ...)\<close>; the state is \<open>(finalResult, maxLength)\<close>.\<close>

definition merge_result :: "string \<Rightarrow> char option list \<times> nat \<Rightarrow> char option list \<times> nat" where
  "merge_result result st =
     (case st of (finalResult, maxLength) \<Rightarrow>
        if maxLength = 0 \<or> length result = maxLength
        then (fold merge_char (zip result [0..<length result]) finalResult, length result)
        else (finalResult, maxLength))"

text \<open>
  \<open>results.sort((a, b) => b.length - a.length)\<close>: a sort by descending length, done in
  place on the caller's array, and stable (as ECMAScript requires since its 2019 edition).
\<close>

definition sort_desc :: "string list \<Rightarrow> string list" where
  "sort_desc results = sort_key (\<lambda>s. - int (length s)) results"

text \<open>
  The function returns the merged string; the second component is the content of the
  caller's array \<open>results\<close> when the call returns.
\<close>

definition combineAllPossible :: "string list \<Rightarrow> string \<times> string list" where
  "combineAllPossible results =
     (let sorted = sort_desc results;
          st = fold merge_result sorted ([], 0)
      in (array_join (fst st), sorted))"

text \<open>Specification side: the first definite character at a position, \<open>?\<close> when there is none.\<close>

definition first_definite :: "string list \<Rightarrow> nat \<Rightarrow> char" where
  "first_definite rs i =
     (case find (\<lambda>s. s ! i \<noteq> CHR ''?'') rs of None \<Rightarrow> CHR ''?'' | Some s \<Rightarrow> s ! i)"

definition longest :: "string list \<Rightarrow> nat" where
  "longest rs = fold max (map length rs) 0"

text \<open>Merging a candidate into a fully written \<open>finalResult\<close> of the same length.\<close>

definition fill :: "string \<Rightarrow> string \<Rightarrow> string" where
  "fill cur r = map2 (\<lambda>a b. if a = CHR ''?'' then b else a) cur r"

section \<open>JavaScript numbers and arrays\<close>

text \<open>
  A JavaScript Number is modelled exactly: a rational, one of the two infinities, or
  \<open>NaN\<close>.  Rounding of doubles is not modelled (all quantities of the program are sums and
  products of integers below \<open>2^53\<close>, and thirds of such), and there is no negative zero: the
  one place of this program where the sign of a zero is observable is the divisor
  \<open>width * height\<close> of \<open>channels\<close>, which \<open>channels_of\<close> below treats by hand.
\<close>

datatype jsnum = NaN | PInf | NInf | Num rat

fun js_neg :: "jsnum \<Rightarrow> jsnum" where
  "js_neg NaN = NaN"
| "js_neg PInf = NInf"
| "js_neg NInf = PInf"
| "js_neg (Num a) = Num (- a)"

fun js_add :: "jsnum \<Rightarrow> jsnum \<Rightarrow> jsnum" where
  "js_add (Num a) (Num b) = Num (a + b)"
| "js_add NaN y = NaN"
| "js_add x NaN = NaN"
| "js_add PInf NInf = NaN"
| "js_add NInf PInf = NaN"
| "js_add PInf y = PInf"
| "js_add x PInf = PInf"
| "js_add NInf y = NInf"
| "js_add x NInf = NInf"

definition js_sub :: "jsnum \<Rightarrow> jsnum \<Rightarrow> jsnum" where
  "js_sub x y = js_add x (js_neg y)"

text \<open>The sign of a number, \<open>None\<close> for \<open>NaN\<close>; products and quotients with an infinity need it.\<close>

fun js_sign :: "jsnum \<Rightarrow> int option" where
  "js_sign NaN = None"
| "js_sign PInf = Some 1"
| "js_sign NInf = Some (- 1)"
| "js_sign (Num a) = Some (if a < 0 then - 1 else if a = 0 then 0 else 1)"

definition js_inf :: "int \<Rightarrow> jsnum" where
  "js_inf s = (if s < 0 then NInf else PInf)"

fun js_mul :: "jsnum \<Rightarrow> jsnum \<Rightarrow> jsnum" where
  "js_mul (Num a) (Num b) = Num (a * b)"
| "js_mul x y =
     (case (js_sign x, js_sign y) of
        (Some s, Some t) \<Rightarrow> if s * t = 0 then NaN else js_inf (s * t)
      | _ \<Rightarrow> NaN)"

text \<open>Division; a zero divisor is \<open>+0\<close>.\<close>

fun js_div :: "jsnum \<Rightarrow> jsnum \<Rightarrow> jsnum" where
  "js_div (Num a) (Num b) =
     (if b \<noteq> 0 then Num (a / b) else if a = 0 then NaN else if 0 < a then PInf else NInf)"
| "js_div NaN y = NaN"
| "js_div x NaN = NaN"
| "js_div (Num a) y = Num 0"
| "js_div x (Num b) = (if 0 \<le> b then x else js_neg x)"
| "js_div x y = NaN"

text \<open>\<open>x < y\<close>: false as soon as an operand is \<open>NaN\<close>.\<close>

fun js_lt :: "jsnum \<Rightarrow> jsnum \<Rightarrow> bool" where
  "js_lt (Num a) (Num b) = (a < b)"
| "js_lt NaN y = False"
| "js_lt x NaN = False"
| "js_lt x NInf = False"
| "js_lt PInf y = False"
| "js_lt x y = True"

text \<open>
  An array (\<open>number[]\<close>) is its \<open>length\<close> and its properties.  A property key is the
  number it was indexed with (two numbers name one property exactly when they are equal).
  The value \<open>NaN\<close> stands both for a stored \<open>NaN\<close> and for \<open>undefined\<close>, the value of a
  property that is not there: the program only adds, divides and compares what it reads,
  and \<open>undefined\<close> behaves as \<open>NaN\<close> in all of these (\<open>undefined === 0\<close> and
  \<open>undefined === 255\<close> are false, as for \<open>NaN\<close>).
\<close>

record jsarray =
  alength :: nat
  props :: "jsnum \<Rightarrow> jsnum"

text \<open>Array indices are the integers from \<open>0\<close> to \<open>2^32 - 2\<close>.\<close>

definition array_index :: "jsnum \<Rightarrow> nat option" where
  "array_index k =
     (case k of
        Num q \<Rightarrow> if 0 \<le> q \<and> q = of_int \<lfloor>q\<rfloor> \<and> q < 2 ^ 32 - 1 then Some (nat \<lfloor>q\<rfloor>) else None
      | _ \<Rightarrow> None)"

text \<open>\<open>a[k]\<close>.\<close>

definition js_get :: "jsarray \<Rightarrow> jsnum \<Rightarrow> jsnum" where
  "js_get a k = props a k"

text \<open>\<open>a[k] = v\<close>: a write at an array index at or past the end extends the array.\<close>

definition js_put :: "jsarray \<Rightarrow> jsnum \<Rightarrow> jsnum \<Rightarrow> jsarray" where
  "js_put a k v =
     \<lparr>alength = (case array_index k of Some n \<Rightarrow> max (alength a) (n + 1) | None \<Rightarrow> alength a),
      props = (props a)(k := v)\<rparr>"

text \<open>The array with the elements \<open>xs\<close> and no other property.\<close>

definition js_array :: "rat list \<Rightarrow> jsarray" where
  "js_array xs =
     \<lparr>alength = length xs,
      props = (\<lambda>k. case array_index k of
                     Some n \<Rightarrow> if n < length xs then Num (xs ! n) else NaN
                   | None \<Rightarrow> NaN)\<rparr>"

datatype js_error = RangeError

text \<open>\<open>new Array(n).fill(v)\<close>; the constructor throws for a length outside \<open>0 .. 2^32 - 1\<close>.\<close>

definition new_array :: "int \<Rightarrow> jsnum \<Rightarrow> js_error + jsarray" where
  "new_array n v =
     (if n < 0 \<or> 2 ^ 32 \<le> n then Inl RangeError
      else Inr \<lparr>alength = nat n,
                props = (\<lambda>k. case array_index k of
                               Some i \<Rightarrow> if i < nat n then v else NaN
                             | None \<Rightarrow> NaN)\<rparr>)"

text \<open>
  \<open>channels = data.length / (width * height)\<close>.  The product of two integers is \<open>-0\<close>
  when it is zero and a factor is negative; dividing by \<open>-0\<close> negates the quotient.
\<close>

definition channels_of :: "jsarray \<Rightarrow> int \<Rightarrow> int \<Rightarrow> jsnum" where
  "channels_of data width height =
     (if width * height = 0 \<and> (width < 0 \<or> height < 0)
      then js_neg (js_div (Num (of_nat (alength data))) (Num 0))
      else js_div (Num (of_nat (alength data))) (Num (of_int (width * height))))"

section \<open>Line extraction: \<open>getLines\<close>\<close>

text \<open>The inner loop over the rows of a column; the state is \<open>(matches, value)\<close>.\<close>

definition scan_row :: "jsarray \<Rightarrow> int \<Rightarrow> jsnum \<Rightarrow> nat \<Rightarrow> nat \<Rightarrow> nat \<times> jsnum \<Rightarrow> nat \<times> jsnum" where
  "scan_row data width channels col row st =
     (case st of (matches, value) \<Rightarrow>
        let value = js_get data (js_mul (Num (of_int (int row * width + int col))) channels)
        in (if value = Num 255 then matches + 1 else matches, value))"

text \<open>
  The body of the first loop over the columns; the state is
  \<open>((padding.left, padding.right), bmp)\<close>.  \<open>value\<close> is declared without a value, so it is
  \<open>undefined\<close> when the column has no row.
\<close>

definition scan_col ::
  "jsarray \<Rightarrow> int \<Rightarrow> int \<Rightarrow> jsnum \<Rightarrow> nat \<Rightarrow> (bool \<times> bool) \<times> bool list \<Rightarrow> (bool \<times> bool) \<times> bool list" where
  "scan_col data width height channels col st =
     (case st of ((left, right), bmp) \<Rightarrow>
        let (matches, value) = fold (scan_row data width channels col) [0..<nat height] (0, NaN);
            left = (if value = Num 0 \<and> int col = 0 then False else left);
            right = (if value = Num 0 \<and> int col = width - 1 then False else right)
        in ((left, right), bmp @ [1 < matches]))"

definition column_bitmap :: "jsarray \<Rightarrow> int \<Rightarrow> int \<Rightarrow> (bool \<times> bool) \<times> bool list" where
  "column_bitmap data width height =
     fold (scan_col data width height (channels_of data width height)) [0..<nat width]
       ((True, True), [])"

text \<open>\<open>bmp[col]\<close>, \<open>None\<close> for \<open>undefined\<close>.\<close>

definition nth_opt :: "'a list \<Rightarrow> nat \<Rightarrow> 'a option" where
  "nth_opt xs i = (if i < length xs then Some (xs ! i) else None)"

text \<open>The body of the run-length loop; the state is \<open>(lines, cnt, cur)\<close>, for \<open>lines\<close>, \<open>count\<close> and \<open>curr\<close>.\<close>

definition run_step ::
  "bool list \<Rightarrow> int \<Rightarrow> nat \<Rightarrow> nat list \<times> nat \<times> bool option \<Rightarrow> nat list \<times> nat \<times> bool option" where
  "run_step bmp width col st =
     (case st of (lines, cnt, cur) \<Rightarrow>
        if nth_opt bmp col = cur
        then (if int col = width - 1 then lines @ [cnt + 1] else lines, cnt + 1, cur)
        else (lines @ [cnt], 1, nth_opt bmp col))"

text \<open>The run lengths before the padding is removed: \<open>lines\<close> after the second loop.\<close>

definition run_lengths :: "bool list \<Rightarrow> int \<Rightarrow> nat list" where
  "run_lengths bmp width = fst (fold (run_step bmp width) [0..<nat width] ([], 1, nth_opt bmp 0))"

text \<open>\<open>shift()\<close> and \<open>pop()\<close> do nothing on an empty array, as \<open>tl\<close> and \<open>butlast\<close>.\<close>

definition getLines :: "jsarray \<Rightarrow> int \<Rightarrow> int \<Rightarrow> nat list" where
  "getLines data width height =
     (case column_bitmap data width height of ((left, right), bmp) \<Rightarrow>
        let lines = run_lengths bmp width;
            lines = (if left then tl lines else lines);
            lines = (if right then butlast lines else lines)
        in lines)"


section \<open>Binarization: \<open>applySimpleThreshold\<close> and \<open>applyAdaptiveThreshold\<close>\<close>

text \<open>The three writes \<open>data[index] = v; data[index + 1] = v; data[index + 2] = v\<close>.\<close>

definition put_rgb :: "jsarray \<Rightarrow> jsnum \<Rightarrow> jsnum \<Rightarrow> jsarray" where
  "put_rgb data index v =
     js_put (js_put (js_put data index v) (js_add index (Num 1)) v) (js_add index (Num 2)) v"

text \<open>\<open>(data[index] + data[index + 1] + data[index + 2]) / 3\<close>.\<close>

definition mean_rgb :: "jsarray \<Rightarrow> jsnum \<Rightarrow> jsnum" where
  "mean_rgb data index =
     js_div (js_add (js_add (js_get data index) (js_get data (js_add index (Num 1))))
                    (js_get data (js_add index (Num 2))))
            (Num 3)"

subsection \<open>Simple threshold\<close>

text \<open>The body of the loop of \<open>applySimpleThreshold\<close>, at position \<open>i\<close>.\<close>

definition threshold_pixel :: "jsarray \<Rightarrow> jsnum \<Rightarrow> jsarray" where
  "threshold_pixel data i =
     (let v = mean_rgb data i;
          v = (if js_lt (Num 127) v then Num 255 else Num 0)
      in put_rgb data i v)"

text \<open>
  \<open>for (let i = 0; i < data.length; i += channels)\<close>.  The bound \<open>data.length\<close> is read in
  every round, and a round can extend the array, so the loop need not end: the result is
  \<open>None\<close> when it does not.
\<close>

partial_function (option) simple_loop :: "jsnum \<Rightarrow> jsnum \<Rightarrow> jsarray \<Rightarrow> jsarray option" where
  "simple_loop channels i data =
     (if js_lt i (Num (of_nat (alength data)))
      then simple_loop channels (js_add i channels) (threshold_pixel data i)
      else Some data)"

declare simple_loop.simps [code]

definition applySimpleThreshold :: "jsarray \<Rightarrow> int \<Rightarrow> int \<Rightarrow> jsarray option" where
  "applySimpleThreshold data width height =
     simple_loop (channels_of data width height) (Num 0) data"

subsection \<open>Adaptive threshold\<close>

text \<open>
  The body of the inner loop of the first pass, at column \<open>i\<close> and row \<open>j\<close>; the state is
  \<open>((data, integralImage), colsum)\<close>, \<open>colsum\<close> for the running column sum \<open>sum\<close>.
\<close>

definition grey_pixel ::
  "int \<Rightarrow> jsnum \<Rightarrow> nat \<Rightarrow> nat \<Rightarrow> (jsarray \<times> jsarray) \<times> jsnum \<Rightarrow> (jsarray \<times> jsarray) \<times> jsnum" where
  "grey_pixel width channels i j st =
     (case st of ((data, integralImage), colsum) \<Rightarrow>
        let pureIndex = int j * width + int i;
            index = js_mul (Num (of_int pureIndex)) channels;
            v = mean_rgb data index;
            data = put_rgb data index v;
            colsum = js_add colsum v;
            integralImage =
              (if i = 0 then js_put integralImage (Num (of_int pureIndex)) colsum
               else js_put integralImage (Num (of_int pureIndex))
                      (js_add (js_get integralImage (Num (of_int (pureIndex - 1)))) colsum))
        in ((data, integralImage), colsum))"

definition grey_column ::
  "int \<Rightarrow> int \<Rightarrow> jsnum \<Rightarrow> nat \<Rightarrow> jsarray \<times> jsarray \<Rightarrow> jsarray \<times> jsarray" where
  "grey_column width height channels i st =
     fst (fold (grey_pixel width channels i) [0..<nat height] (st, Num 0))"

text \<open>The first pass: greyscale and integral image.\<close>

definition firstPass :: "int \<Rightarrow> int \<Rightarrow> jsnum \<Rightarrow> jsarray \<times> jsarray \<Rightarrow> jsarray \<times> jsarray" where
  "firstPass width height channels st =
     fold (grey_column width height channels) [0..<nat width] st"

text \<open>The clamped window of the pixel at column \<open>i\<close> and row \<open>j\<close>: \<open>(x1, x2, y1, y2)\<close>.\<close>

definition window :: "int \<Rightarrow> int \<Rightarrow> int \<Rightarrow> nat \<Rightarrow> nat \<Rightarrow> int \<times> int \<times> int \<times> int" where
  "window width height s2 i j =
     (let x1 = int i - s2; x2 = int i + s2; y1 = int j - s2; y2 = int j + s2;
          x1 = (if x1 < 0 then 0 else x1);
          x2 = (if x2 \<ge> width then width - 1 else x2);
          y1 = (if y1 < 0 then 0 else y1);
          y2 = (if y2 \<ge> height then height - 1 else y2)
      in (x1, x2, y1, y2))"

text \<open>The four-corner sum over the integral image.\<close>

definition window_sum :: "jsarray \<Rightarrow> int \<Rightarrow> int \<times> int \<times> int \<times> int \<Rightarrow> jsnum" where
  "window_sum integralImage width w =
     (case w of (x1, x2, y1, y2) \<Rightarrow>
        js_add
          (js_sub
            (js_sub (js_get integralImage (Num (of_int (y2 * width + x2))))
                    (js_get integralImage (Num (of_int (y1 * width + x2)))))
            (js_get integralImage (Num (of_int (y2 * width + x1)))))
          (js_get integralImage (Num (of_int (y1 * width + x1)))))"

text \<open>The value the second pass writes for a pixel; \<open>t = 0.15\<close>.\<close>

definition adaptive_value :: "jsarray \<Rightarrow> jsarray \<Rightarrow> int \<Rightarrow> int \<Rightarrow> int \<Rightarrow> jsnum \<Rightarrow> nat \<Rightarrow> nat \<Rightarrow> jsnum" where
  "adaptive_value data integralImage width height s2 index i j =
     (case window width height s2 i j of (x1, x2, y1, y2) \<Rightarrow>
        let cnt = (x2 - x1) * (y2 - y1);
            wsum = window_sum integralImage width (x1, x2, y1, y2)
        in if js_lt (js_mul (js_get data index) (Num (of_int cnt)))
                    (js_mul wsum (Num (1 - 15 / 100)))
           then Num 0 else Num 255)"

text \<open>The body of the inner loop of the second pass.\<close>

definition adaptive_pixel ::
  "jsarray \<Rightarrow> int \<Rightarrow> int \<Rightarrow> jsnum \<Rightarrow> int \<Rightarrow> nat \<Rightarrow> nat \<Rightarrow> jsarray \<Rightarrow> jsarray" where
  "adaptive_pixel integralImage width height channels s2 i j data =
     (let pureIndex = int j * width + int i;
          index = js_mul (Num (of_int pureIndex)) channels;
          v = adaptive_value data integralImage width height s2 index i j
      in put_rgb data index v)"

definition secondPass ::
  "jsarray \<Rightarrow> int \<Rightarrow> int \<Rightarrow> jsnum \<Rightarrow> int \<Rightarrow> jsarray \<Rightarrow> jsarray" where
  "secondPass integralImage width height channels s2 data =
     fold (\<lambda>i. fold (adaptive_pixel integralImage width height channels s2 i) [0..<nat height])
       [0..<nat width] data"

text \<open>\<open>s = Math.floor(width / 4)\<close> and \<open>s2 = Math.ceil(s / 2)\<close>.\<close>

definition bracket :: "int \<Rightarrow> int" where
  "bracket width = - ((- (width div 4)) div 2)"

text \<open>
  The function up to the end of its first loop: the allocation of the integral image comes
  first and can throw; the result is \<open>(data, integralImage)\<close>.
\<close>

definition adaptive_first_pass :: "jsarray \<Rightarrow> int \<Rightarrow> int \<Rightarrow> js_error + jsarray \<times> jsarray" where
  "adaptive_first_pass data width height =
     (case new_array (width * height) (Num 0) of
        Inl e \<Rightarrow> Inl e
      | Inr integralImage \<Rightarrow>
          Inr (firstPass width height (channels_of data width height) (data, integralImage)))"

text \<open>
  The whole function.  \<open>channels\<close> is a constant computed before the first pass, from the
  length that \<open>data\<close> has on entry.
\<close>

definition applyAdaptiveThreshold :: "jsarray \<Rightarrow> int \<Rightarrow> int \<Rightarrow> js_error + jsarray" where
  "applyAdaptiveThreshold data width height =
     (case adaptive_first_pass data width height of
        Inl e \<Rightarrow> Inl e
      | Inr (data', integralImage) \<Rightarrow>
          Inr (secondPass integralImage width height (channels_of data width height)
                 (bracket width) data'))"

text \<open>The elements \<open>0 .. n - 1\<close> of an array, for inspection.\<close>

definition elements :: "jsarray \<Rightarrow> nat \<Rightarrow> jsnum list" where
  "elements a n = map (\<lambda>k. js_get a (Num (of_nat k))) [0..<n]"


section \<open>Pixel buffers\<close>

text \<open>The array index \<open>n\<close> as a property key.\<close>

definition key :: "nat \<Rightarrow> jsnum" where
  "key n = Num (of_nat n)"

text \<open>
  A pixel buffer with \<open>c\<close> channels: positive dimensions, \<open>c * width * height\<close> elements
  with \<open>c\<close> positive, and a length that an array can have.
\<close>

definition pixel_buffer :: "rat list \<Rightarrow> int \<Rightarrow> int \<Rightarrow> nat \<Rightarrow> bool" where
  "pixel_buffer xs width height c \<longleftrightarrow>
     0 < width \<and> 0 < height \<and> 0 < c \<and> length xs = c * nat (width * height)
     \<and> length xs < 2 ^ 32"

text \<open>It is well formed when every pixel has the three colour channels that are read.\<close>

definition well_formed :: "rat list \<Rightarrow> int \<Rightarrow> int \<Rightarrow> nat \<Rightarrow> bool" where
  "well_formed xs width height c \<longleftrightarrow> pixel_buffer xs width height c \<and> 3 \<le> c"


text \<open>The greyscale value of pixel number \<open>p\<close>: the mean of its first three channels.\<close>

definition grey :: "rat list \<Rightarrow> nat \<Rightarrow> nat \<Rightarrow> rat" where
  "grey xs c p = (xs ! (p * c) + xs ! (p * c + 1) + xs ! (p * c + 2)) / 3"


text \<open>
  The pixels that a column-by-column pass has been through when it is at column \<open>i\<close> and
  row \<open>j\<close>.
\<close>

definition visited :: "nat \<Rightarrow> nat \<Rightarrow> nat \<Rightarrow> nat \<Rightarrow> nat set" where
  "visited W H i j = {p. \<exists>x y. p = y * W + x \<and> y < H \<and> (x < i \<or> x = i \<and> y < j)}"




text \<open>The pixels in \<open>S\<close> hold \<open>0\<close> or \<open>255\<close> in their three colour channels.\<close>

definition binarized :: "nat \<Rightarrow> nat set \<Rightarrow> jsarray \<Rightarrow> bool" where
  "binarized c S d \<longleftrightarrow>
     (\<forall>p \<in> S. \<forall>k<3. props d (key (p * c + k)) = Num 0 \<or> props d (key (p * c + k)) = Num 255)"


text \<open>
  The state of the simple threshold after \<open>p\<close> pixels: the length is unchanged, the first
  \<open>p\<close> pixels are thresholded and the others untouched.
\<close>

definition simple_value :: "rat list \<Rightarrow> nat \<Rightarrow> nat \<Rightarrow> jsnum" where
  "simple_value xs c p = (if 127 < grey xs c p then Num 255 else Num 0)"

definition thresholded :: "rat list \<Rightarrow> nat \<Rightarrow> nat \<Rightarrow> nat \<Rightarrow> jsarray \<Rightarrow> bool" where
  "thresholded xs c N p d \<longleftrightarrow>
     alength d = length xs
     \<and> (\<forall>q<N. \<forall>k<c. props d (key (q * c + k))
                      = (if q < p \<and> k < 3 then simple_value xs c q else Num (xs ! (q * c + k))))"


section \<open>URL detection: \<open>isUrl\<close>\<close>

text \<open>
  The values \<open>isUrl\<close> computes with: \<open>undefined\<close>, booleans and strings.  A string is a list
  of code units, here of the range \<open>0 .. 255\<close>.
\<close>

datatype jsval = Undefined | Bool bool | Str string

text \<open>\<open>s[i]\<close> on a string: the one-character string at \<open>i\<close>, \<open>undefined\<close> past the end.\<close>

definition char_at :: "string \<Rightarrow> nat \<Rightarrow> jsval" where
  "char_at s i = (if i < length s then Str [s ! i] else Undefined)"

text \<open>\<open>!v\<close>: \<open>undefined\<close>, \<open>false\<close> and the empty string are falsy.\<close>

fun truthy :: "jsval \<Rightarrow> bool" where
  "truthy Undefined = False"
| "truthy (Bool b) = b"
| "truthy (Str x) = (x \<noteq> [])"

definition js_not :: "jsval \<Rightarrow> jsval" where
  "js_not v = Bool (\<not> truthy v)"

text \<open>\<open>a === b\<close>: values of different types are never equal.\<close>

fun strict_equal :: "jsval \<Rightarrow> jsval \<Rightarrow> bool" where
  "strict_equal Undefined Undefined = True"
| "strict_equal (Bool a) (Bool b) = (a = b)"
| "strict_equal (Str a) (Str b) = (a = b)"
| "strict_equal x y = False"

text \<open>
  Regular expressions without back-references, as the one of \<open>isUrl\<close>; \<open>RegExp.test\<close> asks
  whether some substring of the subject is in the language.
\<close>

datatype regex =
  Eps
  | Atom "char \<Rightarrow> bool"
  | Alt regex regex
  | Seq regex regex
  | Star regex

fun nullable :: "regex \<Rightarrow> bool" where
  "nullable Eps = True"
| "nullable (Atom P) = False"
| "nullable (Alt r s) = (nullable r \<or> nullable s)"
| "nullable (Seq r s) = (nullable r \<and> nullable s)"
| "nullable (Star r) = True"

text \<open>\<open>Atom (\<lambda>c. False)\<close> is the empty language.\<close>

fun deriv :: "char \<Rightarrow> regex \<Rightarrow> regex" where
  "deriv c Eps = Atom (\<lambda>x. False)"
| "deriv c (Atom P) = (if P c then Eps else Atom (\<lambda>x. False))"
| "deriv c (Alt r s) = Alt (deriv c r) (deriv c s)"
| "deriv c (Seq r s) =
     (if nullable r then Alt (Seq (deriv c r) s) (deriv c s) else Seq (deriv c r) s)"
| "deriv c (Star r) = Seq (deriv c r) (Star r)"

definition matches :: "regex \<Rightarrow> string \<Rightarrow> bool" where
  "matches r s = nullable (fold deriv s r)"

definition regexp_test :: "regex \<Rightarrow> string \<Rightarrow> bool" where
  "regexp_test r s = matches (Seq (Star (Atom (\<lambda>c. True))) (Seq r (Star (Atom (\<lambda>c. True))))) s"

definition rx_lit :: "string \<Rightarrow> regex" where
  "rx_lit s = foldr (\<lambda>c r. Seq (Atom (\<lambda>x. x = c)) r) s Eps"

definition rx_opt :: "regex \<Rightarrow> regex" where
  "rx_opt r = Alt Eps r"

definition rx_plus :: "regex \<Rightarrow> regex" where
  "rx_plus r = Seq r (Star r)"

text \<open>The classes \<open>\w\<close>, \<open>[0-9]\<close> and \<open>\S\<close> on the code units \<open>0 .. 255\<close>.\<close>

definition is_digit :: "char \<Rightarrow> bool" where
  "is_digit c = (let n = (of_char c :: nat) in 48 \<le> n \<and> n \<le> 57)"

definition is_word :: "char \<Rightarrow> bool" where
  "is_word c =
     (let n = (of_char c :: nat)
      in is_digit c \<or> (65 \<le> n \<and> n \<le> 90) \<or> (97 \<le> n \<and> n \<le> 122) \<or> n = 95)"

definition is_space :: "char \<Rightarrow> bool" where
  "is_space c = (let n = (of_char c :: nat) in (9 \<le> n \<and> n \<le> 13) \<or> n = 32 \<or> n = 160)"

text \<open>
  \<open>/(ftp|http|https):\/\/(\w+:{0,1}\w*@)?(\S+)(:[0-9]+)?(\/|\/([\w#!:.?+=&%@!\-/]))?/\<close>
\<close>

definition url_regexp :: regex where
  "url_regexp =
     Seq (Alt (rx_lit ''ftp'') (Alt (rx_lit ''http'') (rx_lit ''https'')))
    (Seq (rx_lit ''://'')
    (Seq (rx_opt (Seq (rx_plus (Atom is_word))
              (Seq (rx_opt (rx_lit '':'')) (Seq (Star (Atom is_word)) (rx_lit ''@'')))))
    (Seq (rx_plus (Atom (\<lambda>c. \<not> is_space c)))
    (Seq (rx_opt (Seq (rx_lit '':'') (rx_plus (Atom is_digit))))
         (rx_opt (Alt (rx_lit ''/'')
                   (Seq (rx_lit ''/'') (Atom (\<lambda>c. is_word c \<or> c \<in> set ''#!:.?+=&%@!-/'')))))))))"

text \<open>\<open>return !s[0] === '#' || regexp.test(s)\<close>: \<open>!\<close> binds tighter than \<open>===\<close>.\<close>

definition isUrl :: "string \<Rightarrow> bool" where
  "isUrl s = (strict_equal (js_not (char_at s 0)) (Str ''#'') \<or> regexp_test url_regexp s)"


section \<open>Properties of \<open>combineAllPossible\<close>\<close>

lemma upt_shift: "[k..<k + Suc n] = k # [Suc k..<Suc k + n]"
  by (simp add: upt_rec)

lemma array_join_Some: "array_join (map Some s) = s"
  by (induction s) (simp_all add: array_join_def)

lemma fold_merge_char_append:
  "fold merge_char (zip r [length pre..<length pre + length r]) (map Some pre) = map Some (pre @ r)"
proof (induction r arbitrary: pre)
  case Nil
  then show ?case by simp
next
  case (Cons c r)
  have step: "merge_char (c, length pre) (map Some pre) = map Some (pre @ [c])"
    by (simp add: merge_char_def array_get_def array_set_def)
  have "[length pre..<length pre + length (c # r)]
        = length pre # [length (pre @ [c])..<length (pre @ [c]) + length r]"
    using upt_shift [of "length pre" "length r"] by simp
  then show ?case
    using Cons.IH [of "pre @ [c]"] step by simp
qed

lemma fold_merge_char_fill:
  "length cur = length r \<Longrightarrow>
   fold merge_char (zip r [length pre..<length pre + length r]) (map Some (pre @ cur))
     = map Some (pre @ fill cur r)"
proof (induction r arbitrary: pre cur)
  case Nil
  then show ?case by (simp add: fill_def)
next
  case (Cons c r)
  then obtain a cur' where cur: "cur = a # cur'" and len: "length cur' = length r"
    by (cases cur) auto
  let ?a' = "if a = CHR ''?'' then c else a"
  have step: "merge_char (c, length pre) (map Some (pre @ a # cur')) = map Some ((pre @ [?a']) @ cur')"
    by (simp add: merge_char_def array_get_def array_set_def nth_append list_update_append)
  have upt: "[length pre..<length pre + length (c # r)]
        = length pre # [length (pre @ [?a'])..<length (pre @ [?a']) + length r]"
    using upt_shift [of "length pre" "length r"] by simp
  have "fold merge_char (zip (c # r) [length pre..<length pre + length (c # r)]) (map Some (pre @ cur))
        = fold merge_char (zip r [length (pre @ [?a'])..<length (pre @ [?a']) + length r])
            (map Some ((pre @ [?a']) @ cur'))"
    unfolding upt cur using step by simp
  also have "\<dots> = map Some ((pre @ [?a']) @ fill cur' r)"
    using Cons.IH [OF len, of "pre @ [?a']"] .
  also have "\<dots> = map Some (pre @ fill cur (c # r))"
    by (simp add: cur fill_def)
  finally show ?case .
qed

lemma merge_result_first: "merge_result r ([], 0) = (map Some r, length r)"
  using fold_merge_char_append [where pre = "[]" and r = r, simplified] by (simp add: merge_result_def)

lemma merge_result_same:
  "length cur = length r \<Longrightarrow> merge_result r (map Some cur, length cur) = (map Some (fill cur r), length cur)"
  using fold_merge_char_fill [of cur r "[]", simplified] by (simp add: merge_result_def)

lemma merge_result_shorter:
  "n \<noteq> 0 \<Longrightarrow> length r \<noteq> n \<Longrightarrow> merge_result r (fr, n) = (fr, n)"
  by (simp add: merge_result_def)

lemma length_fill: "length cur = length r \<Longrightarrow> length (fill cur r) = length r"
  by (simp add: fill_def)

lemma fold_merge_result_same:
  "\<forall>r \<in> set rs. length r = length cur \<Longrightarrow>
   fold merge_result rs (map Some cur, length cur)
     = (map Some (fold (\<lambda>r c. fill c r) rs cur), length cur)"
proof (induction rs arbitrary: cur)
  case Nil
  then show ?case by simp
next
  case (Cons r rs)
  then have len: "length cur = length r" by simp
  have len': "length (fill cur r) = length cur" using len by (simp add: length_fill)
  have "\<forall>x \<in> set rs. length x = length (fill cur r)" using Cons.prems len' by simp
  from Cons.IH [OF this] show ?case
    using merge_result_same [OF len] len' by simp
qed

lemma fold_merge_result_equal:
  "\<forall>s \<in> set rs. length s = length r \<Longrightarrow>
   fold merge_result (r # rs) ([], 0) = (map Some (fold (\<lambda>r c. fill c r) rs r), length r)"
  using fold_merge_result_same [of rs r] by (simp add: merge_result_first)

lemma fold_merge_result_shorter:
  "n \<noteq> 0 \<Longrightarrow> \<forall>r \<in> set rs. length r \<noteq> n \<Longrightarrow> fold merge_result rs (fr, n) = (fr, n)"
  by (induction rs) (simp_all add: merge_result_shorter)

lemma length_fold_fill:
  "\<forall>s \<in> set rs. length s = length r \<Longrightarrow> length (fold (\<lambda>r c. fill c r) rs r) = length r"
proof (induction rs arbitrary: r)
  case Nil
  then show ?case by simp
next
  case (Cons x rs)
  have "length (fill r x) = length r" using Cons.prems by (simp add: fill_def)
  then show ?case using Cons.IH [of "fill r x"] Cons.prems by simp
qed

lemma first_definite_Cons:
  "first_definite (r # rs) i = (if r ! i \<noteq> CHR ''?'' then r ! i else first_definite rs i)"
  by (simp add: first_definite_def)

lemma nth_fold_fill:
  "\<forall>s \<in> set rs. length s = length r \<Longrightarrow> i < length r \<Longrightarrow>
   fold (\<lambda>r c. fill c r) rs r ! i = first_definite (r # rs) i"
proof (induction rs arbitrary: r)
  case Nil
  then show ?case by (simp add: first_definite_def)
next
  case (Cons x rs)
  have lx: "length x = length r" using Cons.prems by simp
  have lf: "length (fill r x) = length r" using lx by (simp add: fill_def)
  have nf: "fill r x ! i = (if r ! i = CHR ''?'' then x ! i else r ! i)"
    using Cons.prems(2) lx by (simp add: fill_def)
  have "fold (\<lambda>r c. fill c r) (x # rs) r ! i = first_definite (fill r x # rs) i"
    using Cons.IH [of "fill r x"] Cons.prems lf by simp
  also have "\<dots> = first_definite (r # x # rs) i"
    by (simp add: first_definite_Cons nf)
  finally show ?case .
qed

lemma sort_desc_equal: "\<forall>s \<in> set rs. length s = n \<Longrightarrow> sort_desc rs = rs"
proof -
  assume a: "\<forall>s \<in> set rs. length s = n"
  have "map (\<lambda>s. - int (length s)) rs = replicate (length rs) (- int n)"
    using a by (induction rs) simp_all
  then have "sorted (map (\<lambda>s. - int (length s)) rs)" by (simp add: sorted_replicate)
  then show ?thesis unfolding sort_desc_def by (rule sort_key_id_if_sorted)
qed

lemma merged_equal:
  "\<forall>s \<in> set rs. length s = length r \<Longrightarrow>
   fst (combineAllPossible (r # rs)) = fold (\<lambda>r c. fill c r) rs r"
proof -
  assume a: "\<forall>s \<in> set rs. length s = length r"
  then have "sort_desc (r # rs) = r # rs" by (intro sort_desc_equal [of _ "length r"]) simp
  then show ?thesis
    using fold_merge_result_equal [OF a] by (simp add: combineAllPossible_def array_join_Some)
qed

lemma sorted_key_split:
  "sorted (map f ys) \<Longrightarrow> \<forall>y \<in> set ys. k \<le> f y \<Longrightarrow>
   ys = filter (\<lambda>y. f y = k) ys @ filter (\<lambda>y. f y \<noteq> k) ys"
proof (induction ys)
  case Nil
  then show ?case by simp
next
  case (Cons y ys)
  show ?case
  proof (cases "f y = k")
    case True
    then show ?thesis using Cons by simp
  next
    case False
    then have "\<forall>z \<in> set ys. f z \<noteq> k" using Cons.prems by fastforce
    then have "filter (\<lambda>y. f y = k) ys = []" "filter (\<lambda>y. f y \<noteq> k) ys = ys"
      by (simp_all add: filter_empty_conv filter_id_conv)
    then show ?thesis using False by simp
  qed
qed

lemma longest_Max: "longest rs = Max (set (0 # map length rs))"
  unfolding longest_def by (rule Max.set_eq_fold [symmetric])

lemma longest_ge: "s \<in> set rs \<Longrightarrow> length s \<le> longest rs"
  unfolding longest_Max by (intro Max_ge) auto

lemma longest_attained: "rs \<noteq> [] \<Longrightarrow> \<exists>s \<in> set rs. length s = longest rs"
proof -
  assume ne: "rs \<noteq> []"
  have "longest rs \<in> set (0 # map length rs)"
    unfolding longest_Max by (rule Max_in) auto
  then consider "longest rs = 0" | "longest rs \<in> length ` set rs" by auto
  then show ?thesis
  proof cases
    case 1
    from ne obtain s where s: "s \<in> set rs" by (cases rs) auto
    with longest_ge [OF s] 1 show ?thesis by auto
  next
    case 2
    then show ?thesis by auto
  qed
qed

lemma sort_desc_split:
  "sort_desc rs = filter (\<lambda>s. length s = longest rs) rs
                  @ filter (\<lambda>s. length s \<noteq> longest rs) (sort_desc rs)"
proof -
  let ?f = "\<lambda>s::string. - int (length s)"
  let ?k = "- int (longest rs)"
  have srt: "sorted (map ?f (sort_desc rs))" by (simp add: sort_desc_def)
  have lb: "\<forall>y \<in> set (sort_desc rs). ?k \<le> ?f y"
    by (simp add: sort_desc_def longest_ge)
  have "sort_desc rs = filter (\<lambda>y. ?f y = ?k) (sort_desc rs) @ filter (\<lambda>y. ?f y \<noteq> ?k) (sort_desc rs)"
    by (rule sorted_key_split [OF srt lb])
  moreover have "filter (\<lambda>y. ?f y = ?k) (sort_desc rs) = filter (\<lambda>y. ?f y = ?k) rs"
    unfolding sort_desc_def by (rule sort_key_stable)
  ultimately show ?thesis by simp
qed

lemma merged_longest:
  "fst (combineAllPossible rs) = fst (combineAllPossible (filter (\<lambda>s. length s = longest rs) rs))
   \<and> length (fst (combineAllPossible rs)) = longest rs"
proof (cases "rs = []")
  case True
  then show ?thesis by (simp add: combineAllPossible_def sort_desc_def array_join_def longest_def)
next
  case False
  let ?m = "longest rs"
  let ?top = "filter (\<lambda>s. length s = ?m) rs"
  let ?rest = "filter (\<lambda>s. length s \<noteq> ?m) (sort_desc rs)"
  from longest_attained [OF False] have "?top \<noteq> []" by (simp add: filter_empty_conv)
  then obtain r ts where top: "?top = r # ts" by (cases ?top) auto
  have "\<forall>s \<in> set ?top. length s = ?m" by simp
  then have lr: "length r = ?m" and lts: "\<forall>s \<in> set ts. length s = length r"
    unfolding top by simp_all
  let ?X = "fold (\<lambda>r c. fill c r) ts r"
  have lX: "length ?X = ?m" using length_fold_fill [OF lts] lr by simp
  have rest: "fold merge_result ?rest (map Some ?X, ?m) = (map Some ?X, ?m)"
  proof (cases "?m = 0")
    case True
    have "\<forall>s \<in> set (sort_desc rs). length s = ?m"
    proof
      fix s assume "s \<in> set (sort_desc rs)"
      then have "s \<in> set rs" by (simp add: sort_desc_def)
      from longest_ge [OF this] True show "length s = ?m" by simp
    qed
    then have "?rest = []" by (simp add: filter_empty_conv)
    then show ?thesis by simp
  next
    case False
    then show ?thesis by (intro fold_merge_result_shorter) simp_all
  qed
  have "fold merge_result (sort_desc rs) ([], 0) = fold merge_result ?rest (fold merge_result (r # ts) ([], 0))"
    by (subst sort_desc_split) (simp only: top fold_append comp_apply)
  also have "\<dots> = (map Some ?X, ?m)"
    using fold_merge_result_equal [OF lts] rest lr by simp
  finally have whole: "fst (combineAllPossible rs) = ?X"
    by (simp add: combineAllPossible_def array_join_Some)
  have "fst (combineAllPossible ?top) = ?X"
    unfolding top by (rule merged_equal [OF lts])
  with whole lX show ?thesis by simp
qed

lemma merged_nth:
  assumes "rs \<noteq> []" and "\<forall>s \<in> set rs. length s = n"
  shows "length (fst (combineAllPossible rs)) = n"
    and "i < n \<Longrightarrow> fst (combineAllPossible rs) ! i = first_definite rs i"
proof -
  from assms obtain r ts where rs: "rs = r # ts" by (cases rs) auto
  with assms have lr: "length r = n" and lts: "\<forall>s \<in> set ts. length s = length r" by simp_all
  show "length (fst (combineAllPossible rs)) = n"
    unfolding rs using merged_equal [OF lts] length_fold_fill [OF lts] lr by simp
  show "fst (combineAllPossible rs) ! i = first_definite rs i" if "i < n"
    unfolding rs using merged_equal [OF lts] nth_fold_fill [OF lts, of i] lr that by simp
qed

text \<open>
  Claim C7: the merged string is determined by the candidates of maximal length alone.  Its
  length is the length of the longest candidate (\<open>0\<close> for an empty collection), and the
  result is the same as when every strictly shorter candidate is removed from the
  collection beforehand; merging \<open>"12"\<close> and \<open>"123"\<close> gives \<open>"123"\<close>, and an empty collection
  gives the empty string.
\<close>

theorem combineAllPossible_longest_only:
  "length (fst (combineAllPossible rs)) = longest rs
   \<and> fst (combineAllPossible rs)
       = fst (combineAllPossible (filter (\<lambda>s. length s = longest rs) rs))
   \<and> fst (combineAllPossible [''12'', ''123'']) = ''123''
   \<and> fst (combineAllPossible []) = ''''"
proof -
  have "fst (combineAllPossible [''12'', ''123'']) = ''123''"
    by (simp add: combineAllPossible_def sort_desc_def merge_result_def merge_char_def
        array_get_def array_set_def array_join_def)
  moreover have "fst (combineAllPossible []) = ''''"
    by (simp add: combineAllPossible_def sort_desc_def array_join_def)
  ultimately show ?thesis using merged_longest [of rs] by blast
qed

text \<open>
  Claim C8: for candidates of one common length, position \<open>i\<close> of the merged string holds the
  first definite (non-\<open>?\<close>) character that a candidate has at \<open>i\<close>, in the order of the
  collection, and \<open>?\<close> only when every candidate has \<open>?\<close> there.  So a definite character of
  the first candidate persists, a \<open>?\<close> never replaces a definite character, and a later
  candidate fills what earlier ones left as \<open>?\<close>.  Merging \<open>"1?3"\<close> and \<open>"123"\<close> gives
  \<open>"123"\<close>; merging a candidate with itself gives that candidate.
\<close>

theorem combineAllPossible_equal_length:
  assumes "rs \<noteq> []" and "\<forall>s \<in> set rs. length s = n"
  shows "length (fst (combineAllPossible rs)) = n
     \<and> (\<forall>i<n. fst (combineAllPossible rs) ! i = first_definite rs i
            \<and> (hd rs ! i \<noteq> CHR ''?'' \<longrightarrow> fst (combineAllPossible rs) ! i = hd rs ! i))
     \<and> fst (combineAllPossible [''1?3'', ''123'']) = ''123''
     \<and> fst (combineAllPossible [s, s]) = s"
proof -
  from assms obtain r ts where rs: "rs = r # ts" by (cases rs) auto
  have hd: "first_definite rs i = hd rs ! i" if "hd rs ! i \<noteq> CHR ''?''" for i
    using that by (simp add: rs first_definite_Cons)
  have ex: "fst (combineAllPossible [''1?3'', ''123'']) = ''123''"
    by (simp add: combineAllPossible_def sort_desc_def merge_result_def merge_char_def
        array_get_def array_set_def array_join_def)
  have "fill s s = s" by (simp add: fill_def map2_map_map [where f = id and g = id, simplified] zip_same_conv_map comp_def)
  then have self: "fst (combineAllPossible [s, s]) = s"
    using merged_equal [of "[s]" s] by simp
  show ?thesis
    using merged_nth [OF assms] hd ex self by simp
qed

text \<open>Claim C8, witness: three candidates of length three.\<close>

theorem combineAllPossible_equal_length_witness:
  "list_all (\<lambda>s. length s = 3) [''1?3'', ''1?4'', ''?25'']
   \<and> fst (combineAllPossible [''1?3'', ''1?4'', ''?25'']) = ''123''"
proof -
  let ?rs = "[''1?3'', ''1?4'', ''?25'']"
  have h1: "?rs \<noteq> []" by simp
  have h2: "\<forall>s \<in> set ?rs. length s = 3" by simp
  have l: "length (fst (combineAllPossible ?rs)) = 3"
    and n: "\<forall>i<3. fst (combineAllPossible ?rs) ! i = first_definite ?rs i"
    using combineAllPossible_equal_length [OF h1 h2] by simp_all
  have "fst (combineAllPossible ?rs) = map (first_definite ?rs) [0..<3]"
    using l n by (intro nth_equalityI) (simp_all del: upt_Suc)
  also have "\<dots> = ''123''"
    by (simp add: first_definite_def upt_rec)
  finally show ?thesis using h1 h2 by simp
qed

text \<open>
  Claim C9, as stated, fails: the call sorts the caller's array in place, so \<open>["12", "123"]\<close>
  is \<open>["123", "12"]\<close> after the call.
\<close>

theorem combineAllPossible_reorders_input_counterexample:
  "snd (combineAllPossible [''12'', ''123'']) = [''123'', ''12'']
   \<and> snd (combineAllPossible [''12'', ''123'']) \<noteq> [''12'', ''123'']"
  by (simp add: combineAllPossible_def sort_desc_def)

text \<open>
  Claim C9, amended: after the call the caller's collection holds the same elements, ordered
  by descending length with candidates of equal length in their original relative order;
  it is exactly as passed if and only if it was already in descending order of length.
\<close>

theorem combineAllPossible_sorts_input:
  "mset (snd (combineAllPossible rs)) = mset rs
   \<and> sorted_wrt (\<lambda>a b. length b \<le> length a) (snd (combineAllPossible rs))
   \<and> filter (\<lambda>s. length s = k) (snd (combineAllPossible rs)) = filter (\<lambda>s. length s = k) rs
   \<and> (snd (combineAllPossible rs) = rs \<longleftrightarrow> sorted_wrt (\<lambda>a b. length b \<le> length a) rs)"
proof -
  let ?f = "\<lambda>s::string. - int (length s)"
  have key: "sorted (map ?f xs) = sorted_wrt (\<lambda>a b. length b \<le> length a) xs" for xs
    by (simp add: sorted_map)
  have snd: "snd (combineAllPossible rs) = sort_key ?f rs"
    by (simp add: combineAllPossible_def sort_desc_def Let_def)
  have "sorted (map ?f (sort_key ?f rs))" by simp
  then have s: "sorted_wrt (\<lambda>a b. length b \<le> length a) (sort_key ?f rs)" by (simp only: key)
  have st: "filter (\<lambda>s. length s = k) (sort_key ?f rs) = filter (\<lambda>s. length s = k) rs"
    using sort_key_stable [of ?f "- int k" rs] by simp
  have iff: "sort_key ?f rs = rs \<longleftrightarrow> sorted_wrt (\<lambda>a b. length b \<le> length a) rs"
  proof
    assume "sort_key ?f rs = rs"
    with s show "sorted_wrt (\<lambda>a b. length b \<le> length a) rs" by simp
  next
    assume "sorted_wrt (\<lambda>a b. length b \<le> length a) rs"
    then have "sorted (map ?f rs)" by (simp only: key)
    then show "sort_key ?f rs = rs" by (rule sort_key_id_if_sorted)
  qed
  show ?thesis unfolding snd using s st iff by simp
qed

text \<open>Claim C9, witness of the amended statement at a collection that is already ordered.\<close>

theorem combineAllPossible_sorts_input_witness:
  "snd (combineAllPossible [''123'', ''1?3'', ''12'']) = [''123'', ''1?3'', ''12'']"
  using combineAllPossible_sorts_input [of "[''123'', ''1?3'', ''12'']" 0] by simp

section \<open>Properties of \<open>getLines\<close>\<close>

lemma fold_upt_invariant:
  assumes "P 0 s" and "\<And>k t. k < n \<Longrightarrow> P k t \<Longrightarrow> P (Suc k) (f k t)"
  shows "P n (fold f [0..<n] s)"
  using assms
proof (induction n)
  case 0
  then show ?case by simp
next
  case (Suc n)
  have "P n (fold f [0..<n] s)"
    using Suc.IH [OF Suc.prems(1)] Suc.prems(2) by simp
  then show ?case using Suc.prems(2) [of n] by simp
qed

lemma run_lengths_uniform:
  assumes "0 < n"
  shows "run_lengths (replicate n b) (int n) = [n + 1]"
proof -
  let ?bmp = "replicate n b"
  let ?P = "\<lambda>k st. st = (if k = n then [n + 1] else [], k + 1, Some b)"
  have init: "?P 0 ([], 1, nth_opt ?bmp 0)"
    using assms by (simp add: nth_opt_def)
  have step: "?P (Suc k) (run_step ?bmp (int n) k t)" if "k < n" "?P k t" for k t
  proof -
    from that have t: "t = ([], k + 1, Some b)" by simp
    have "int k = int n - 1 \<longleftrightarrow> Suc k = n" by linarith
    then show ?thesis using that(1) by (simp add: t run_step_def nth_opt_def)
  qed
  have "?P n (fold (run_step ?bmp (int n)) [0..<n] ([], 1, nth_opt ?bmp 0))"
    by (rule fold_upt_invariant [where P = ?P, OF init step])
  then show ?thesis by (simp add: run_lengths_def)
qed

text \<open>
  The sum of the runs before the padding is removed: one more than the width when the last
  column continues a run, the width when it starts one (the first run is one too long, and
  this last run of one column is missing).
\<close>

lemma run_lengths_sum:
  assumes "bmp \<noteq> []" and n: "n = length bmp"
  shows "sum_list (run_lengths bmp (int n))
         = (if n = 1 \<or> bmp ! (n - 1) = bmp ! (n - 2) then n + 1 else n)"
proof -
  let ?last = "n = 1 \<or> bmp ! (n - 1) = bmp ! (n - 2)"
  let ?P = "\<lambda>k st. case st of (lines, cnt, cur) \<Rightarrow>
              (if k = 0 then lines = [] \<and> cnt = 1 \<and> cur = Some (bmp ! 0)
               else cur = Some (bmp ! (k - 1))
                    \<and> (if k = n \<and> ?last then sum_list lines = n + 1
                        else sum_list lines + cnt = k + 1)
                    \<and> (2 \<le> k \<and> bmp ! (k - 1) \<noteq> bmp ! (k - 2) \<longrightarrow> cnt = 1))"
  have pos: "0 < n" using assms by simp
  have init: "?P 0 ([], 1, nth_opt bmp 0)" using pos n by (simp add: nth_opt_def)
  have step: "?P (Suc k) (run_step bmp (int n) k st)" if k: "k < n" and P: "?P k st" for k st
  proof -
    obtain lines cnt cur where st: "st = (lines, cnt, cur)" by (cases st)
    have nth: "nth_opt bmp k = Some (bmp ! k)" using k n by (simp add: nth_opt_def)
    have fin: "int k = int n - 1 \<longleftrightarrow> Suc k = n" by linarith
    show ?thesis
    proof (cases "k = 0")
      case True
      with P st have "lines = []" "cnt = 1" "cur = Some (bmp ! 0)" by simp_all
      then show ?thesis using True st nth fin by (auto simp: run_step_def)
    next
      case False
      with P st k have cur: "cur = Some (bmp ! (k - 1))"
        and s: "sum_list lines + cnt = k + 1" by simp_all
      have two: "Suc k = n \<Longrightarrow> n - 1 = k \<and> n - 2 = k - 1" using False by auto
      have pred: "Suc k - 2 = k - 1" using False by auto
      show ?thesis
        using False st nth fin cur s two pred by (auto simp: run_step_def)
    qed
  qed
  have "?P n (fold (run_step bmp (int n)) [0..<n] ([], 1, nth_opt bmp 0))"
    by (rule fold_upt_invariant [where P = ?P, OF init step])
  then show ?thesis using pos by (auto simp: run_lengths_def split: prod.splits)
qed

text \<open>
  Claim C1 does not hold of the code: the counter starts at \<open>1\<close> and the loop starts at column
  \<open>0\<close>, which is compared with itself, so the first run comes out one too long; and a last
  run of a single column is never emitted.  A \<open>2 \<times> 2\<close> image that is black throughout, with
  three channels, gives the single run \<open>3\<close>, not \<open>2\<close>; nothing is trimmed, since both edges
  are black.  The columns white, black, white, white give the runs \<open>2, 1, 2\<close>, of sum \<open>5\<close> for
  a width of \<open>4\<close>; the columns white, white, black give the one run \<open>3\<close>.
\<close>

theorem getLines_first_run_one_too_long:
  "getLines (js_array [0, 0, 0,  0, 0, 0,  0, 0, 0,  0, 0, 0]) 2 2 = [3]
   \<and> run_lengths [True, False, True, True] 4 = [2, 1, 2]
   \<and> run_lengths [True, True, False] 3 = [3]"
  by code_simp

section \<open>Properties of the binarizers\<close>

subsection \<open>Keys\<close>

lemma key_eq_iff [simp]: "key m = key n \<longleftrightarrow> m = n"
  by (simp add: key_def)

lemma array_index_key: "n < 2 ^ 32 - 1 \<Longrightarrow> array_index (key n) = Some n"
proof -
  assume "n < 2 ^ 32 - 1"
  then have "(of_nat n :: rat) < of_nat (2 ^ 32 - 1)" by (simp only: of_nat_less_iff)
  then have "(of_nat n :: rat) < 2 ^ 32 - 1" by simp
  then show ?thesis by (simp add: array_index_def key_def)
qed

lemma key_add_1: "js_add (key n) (Num 1) = key (n + 1)"
  by (simp add: key_def)

lemma key_add_2: "js_add (key n) (Num 2) = key (n + 2)"
  by (simp add: key_def)

lemma key_mul: "js_mul (Num (of_int (int j * int W + int i))) (key c) = key ((j * W + i) * c)"
  by (simp add: key_def)

lemma key_mul_key: "js_mul (key a) (key c) = key (a * c)"
  by (simp add: key_def)

lemma key_of_int: "Num (of_int (int j * int W + int i)) = key (j * W + i)"
  by (simp add: key_def)


lemma props_js_array:
  "n < length xs \<Longrightarrow> length xs < 2 ^ 32 \<Longrightarrow> props (js_array xs) (key n) = Num (xs ! n)"
  by (simp add: js_array_def array_index_key)

lemma props_js_put: "props (js_put d k v) k' = (if k' = k then v else props d k')"
  by (simp add: js_put_def)

lemma alength_js_put_key:
  "n < alength d \<Longrightarrow> alength d < 2 ^ 32 \<Longrightarrow> alength (js_put d (key n) v) = alength d"
  by (simp add: js_put_def array_index_key)

lemma props_put_rgb:
  "props (put_rgb d (key n) v) (key m)
     = (if m = n \<or> m = n + 1 \<or> m = n + 2 then v else props d (key m))"
  by (simp add: put_rgb_def props_js_put key_add_1 key_add_2)

lemma alength_put_rgb:
  "n + 2 < alength d \<Longrightarrow> alength d < 2 ^ 32 \<Longrightarrow> alength (put_rgb d (key n) v) = alength d"
  by (simp add: put_rgb_def key_add_1 key_add_2 alength_js_put_key)

lemma mean_rgb_key:
  "mean_rgb d (key n)
     = js_div (js_add (js_add (props d (key n)) (props d (key (n + 1)))) (props d (key (n + 2)))) (Num 3)"
  by (simp add: mean_rgb_def js_get_def key_add_1 key_add_2)

lemma channels_of_js_array:
  assumes "0 < W" "0 < H" "length xs = c * (W * H)"
  shows "channels_of (js_array xs) (int W) (int H) = key c"
proof -
  have "(of_nat (c * (W * H)) :: rat) / of_nat (W * H) = of_nat c"
    using assms by simp
  then show ?thesis
    using assms by (simp add: channels_of_def js_array_def key_def)
qed

lemma pixel_key_unique:
  fixes p q c k k' :: nat
  assumes "p * c + k = q * c + k'" "k < c" "k' < c"
  shows "p = q \<and> k = k'"
proof -
  have "(p * c + k) div c = p" using assms(2) by simp
  moreover have "(q * c + k') div c = q" using assms(3) by simp
  ultimately have "p = q" using assms(1) by metis
  then show ?thesis using assms(1) by simp
qed


subsection \<open>The first pass\<close>


lemma visited_Suc:
  "j < H \<Longrightarrow> visited W H i (Suc j) = insert (j * W + i) (visited W H i j)"
  unfolding visited_def by (auto simp: less_Suc_eq)

lemma visited_next_column: "visited W H (Suc i) 0 = visited W H i H"
  unfolding visited_def by (auto simp: less_Suc_eq)

lemma visited_start: "visited W H 0 0 = {}"
  unfolding visited_def by simp


lemma visited_all: "0 < W \<Longrightarrow> p < W * H \<Longrightarrow> p \<in> visited W H W 0"
proof -
  assume W: "0 < W" and p: "p < W * H"
  have "p = (p div W) * W + p mod W" by simp
  moreover have "p mod W < W" using W by simp
  moreover have "p div W < H" using p W by (simp add: less_mult_imp_div_less mult.commute)
  ultimately show ?thesis unfolding visited_def by blast
qed









subsection \<open>The second pass\<close>

lemma adaptive_value_cases:
  "adaptive_value d ii w h s2 index i j = Num 0 \<or> adaptive_value d ii w h s2 index i j = Num 255"
  by (simp add: adaptive_value_def Let_def split: prod.splits)

lemma adaptive_pixel_nat:
  "adaptive_pixel ii (int W) (int H) (key c) s2 i j d
     = put_rgb d (key ((j * W + i) * c))
         (adaptive_value d ii (int W) (int H) s2 (key ((j * W + i) * c)) i j)"
  unfolding adaptive_pixel_def Let_def key_of_int key_mul_key by simp

lemma binarized_put:
  assumes "binarized c S d" "v = Num 0 \<or> v = Num 255"
  shows "binarized c (insert q S) (put_rgb d (key (q * c)) v)"
  unfolding binarized_def
proof (intro ballI allI impI)
  fix p k :: nat
  assume p: "p \<in> insert q S" and k: "k < 3"
  show "props (put_rgb d (key (q * c)) v) (key (p * c + k)) = Num 0
        \<or> props (put_rgb d (key (q * c)) v) (key (p * c + k)) = Num 255"
  proof (cases "p * c + k = q * c \<or> p * c + k = q * c + 1 \<or> p * c + k = q * c + 2")
    case True
    then show ?thesis using assms(2) by (simp add: props_put_rgb)
  next
    case False
    then have "p \<noteq> q" using k by (cases "k = 0"; cases "k = 1"; cases "k = 2") auto
    then have "p \<in> S" using p by simp
    then show ?thesis using False assms(1) k unfolding binarized_def by (simp add: props_put_rgb)
  qed
qed

lemma second_pass_binarized:
  "binarized c (visited W H W 0) (secondPass ii (int W) (int H) (key c) s2 d)"
proof -
  let ?P = "\<lambda>i d'. binarized c (visited W H i 0) d'"
  have init: "?P 0 d" by (simp add: binarized_def visited_start)
  have step: "?P (Suc i) (fold (adaptive_pixel ii (int W) (int H) (key c) s2 i) [0..<H] d')"
    if "i < W" "?P i d'" for i d'
  proof -
    let ?Q = "\<lambda>j d''. binarized c (visited W H i j) d''"
    have "?Q H (fold (adaptive_pixel ii (int W) (int H) (key c) s2 i) [0..<H] d')"
    proof (rule fold_upt_invariant [where P = ?Q])
      show "?Q 0 d'" using that(2) .
    next
      fix j d'' assume "j < H" "?Q j d''"
      then show "?Q (Suc j) (adaptive_pixel ii (int W) (int H) (key c) s2 i j d'')"
        unfolding adaptive_pixel_nat visited_Suc [OF \<open>j < H\<close>]
        by (intro binarized_put adaptive_value_cases)
    qed
    then show ?thesis by (simp add: visited_next_column)
  qed
  have "?P W (fold (\<lambda>i. fold (adaptive_pixel ii (int W) (int H) (key c) s2 i) [0..<H]) [0..<W] d)"
    by (rule fold_upt_invariant [where P = ?P, OF init step])
  then show ?thesis by (simp add: secondPass_def)
qed

lemma new_array_ok: "0 \<le> n \<Longrightarrow> n < 2 ^ 32 \<Longrightarrow> \<exists>a. new_array n v = Inr a"
  by (simp add: new_array_def)

lemma pixel_buffer_nat:
  assumes "pixel_buffer xs width height c"
  obtains W H where "width = int W" "height = int H" "0 < W" "0 < H" "0 < c"
    "length xs = c * (W * H)" "length xs < 2 ^ 32" "nat (width * height) = W * H"
    "W * H < 2 ^ 32"
proof -
  from assms have w: "0 < width" and h: "0 < height" and c: "0 < c"
    and len: "length xs = c * nat (width * height)" "length xs < 2 ^ 32"
    by (simp_all add: pixel_buffer_def)
  have n: "nat (width * height) = nat width * nat height"
    using w h by (simp add: nat_mult_distrib)
  have "1 * (nat width * nat height) \<le> c * (nat width * nat height)"
    using c by (intro mult_le_mono1) simp
  then have "nat width * nat height \<le> length xs" using len(1) n by simp
  then have "nat width * nat height < 2 ^ 32" using len(2) by linarith
  then show ?thesis
    using that [of "nat width" "nat height"] w h c len n by simp
qed

lemma well_formed_nat:
  assumes "well_formed xs width height c"
  obtains W H where "width = int W" "height = int H" "0 < W" "0 < H" "3 \<le> c"
    "length xs = c * (W * H)" "length xs < 2 ^ 32" "nat (width * height) = W * H"
    "W * H < 2 ^ 32"
proof -
  from assms have pb: "pixel_buffer xs width height c" and c: "3 \<le> c"
    by (simp_all add: well_formed_def)
  from pb obtain W H where "width = int W" "height = int H" "0 < W" "0 < H"
    "length xs = c * (W * H)" "length xs < 2 ^ 32" "nat (width * height) = W * H"
    "W * H < 2 ^ 32"
    by (rule pixel_buffer_nat)
  with c show ?thesis using that by blast
qed

subsection \<open>The simple threshold\<close>

lemma key_add_key: "js_add (key a) (key b) = key (a + b)"
  by (simp add: key_def)

lemma js_lt_key: "js_lt (key a) (Num (of_nat b)) \<longleftrightarrow> a < b"
  by (simp add: key_def)

lemma threshold_pixel_step:
  assumes c: "3 \<le> c" and len: "length xs = c * N" "length xs < 2 ^ 32" and p: "p < N"
    and inv: "thresholded xs c N p d"
  shows "thresholded xs c N (Suc p) (threshold_pixel d (key (p * c)))"
proof -
  from inv have al: "alength d = length xs"
    and pr: "\<And>q k. q < N \<Longrightarrow> k < c \<Longrightarrow> props d (key (q * c + k))
               = (if q < p \<and> k < 3 then simple_value xs c q else Num (xs ! (q * c + k)))"
    by (simp_all add: thresholded_def)
  have "props d (key (p * c + k)) = Num (xs ! (p * c + k))" if "k < 3" for k
    using pr [OF p, of k] that c by simp
  from this [of 0] this [of 1] this [of 2]
  have m: "mean_rgb d (key (p * c)) = Num (grey xs c p)"
    by (simp add: mean_rgb_key grey_def)
  have tp: "threshold_pixel d (key (p * c)) = put_rgb d (key (p * c)) (simple_value xs c p)"
    by (simp add: threshold_pixel_def m simple_value_def)
  have "p * c + 2 < Suc p * c" using c by simp
  also have "\<dots> \<le> N * c" using p by (intro mult_le_mono1) simp
  finally have "p * c + 2 < alength d" using al len(1) by (simp add: mult.commute)
  then have al': "alength (put_rgb d (key (p * c)) (simple_value xs c p)) = length xs"
    using al len(2) by (simp add: alength_put_rgb)
  have pr': "props (put_rgb d (key (p * c)) (simple_value xs c p)) (key (q * c + k))
      = (if q < Suc p \<and> k < 3 then simple_value xs c q else Num (xs ! (q * c + k)))"
    if q: "q < N" and k: "k < c" for q k
  proof (cases "q = p \<and> k < 3")
    case True
    then have "k = 0 \<or> k = 1 \<or> k = 2" by auto
    then show ?thesis using True by (auto simp: props_put_rgb)
  next
    case False
    have "q * c + k \<noteq> p * c + k'" if "k' < 3" for k'
      using pixel_key_unique [of q c k p k'] False k c that by auto
    from this [of 0] this [of 1] this [of 2]
    have "props (put_rgb d (key (p * c)) (simple_value xs c p)) (key (q * c + k))
          = props d (key (q * c + k))"
      by (simp add: props_put_rgb)
    then show ?thesis using pr [OF q k] False by (auto simp: less_Suc_eq)
  qed
  show ?thesis unfolding tp thresholded_def using al' pr' by blast
qed

lemma simple_loop_result:
  assumes c: "3 \<le> c" and len: "length xs = c * N" "length xs < 2 ^ 32"
  shows "p \<le> N \<Longrightarrow> thresholded xs c N p d \<Longrightarrow>
         \<exists>d'. simple_loop (key c) (key (p * c)) d = Some d' \<and> thresholded xs c N N d'"
proof (induction "N - p" arbitrary: p d)
  case 0
  then have p: "p = N" by simp
  have "alength d = c * N" using 0(3) len(1) by (simp add: thresholded_def)
  then have "\<not> js_lt (key (p * c)) (Num (of_nat (alength d)))"
    unfolding js_lt_key by (simp add: p mult.commute)
  then have "simple_loop (key c) (key (p * c)) d = Some d"
    by (subst simple_loop.simps) simp
  then show ?case using 0(3) p by simp
next
  case (Suc n)
  then have p: "p < N" by simp
  have "alength d = c * N" using Suc(4) len(1) by (simp add: thresholded_def)
  moreover have "p * c < c * N" using p c by (simp add: mult.commute)
  ultimately have lt: "js_lt (key (p * c)) (Num (of_nat (alength d)))"
    unfolding js_lt_key by simp
  have next_i: "js_add (key (p * c)) (key c) = key (Suc p * c)"
    by (simp add: key_add_key)
  have unfold: "simple_loop (key c) (key (p * c)) d
      = simple_loop (key c) (key (Suc p * c)) (threshold_pixel d (key (p * c)))"
    by (subst simple_loop.simps) (simp only: lt next_i if_True)
  have "thresholded xs c N (Suc p) (threshold_pixel d (key (p * c)))"
    using c len p Suc(4) by (rule threshold_pixel_step)
  moreover have "n = N - Suc p" "Suc p \<le> N" using Suc(2) p by simp_all
  ultimately show ?case unfolding unfold by (intro Suc(1))
qed

lemma thresholded_start:
  assumes "length xs = c * N" "length xs < 2 ^ 32"
  shows "thresholded xs c N 0 (js_array xs)"
proof -
  have "props (js_array xs) (key (q * c + k)) = Num (xs ! (q * c + k))" if "q < N" "k < c" for q k
  proof -
    have "q * c + k < Suc q * c" using that(2) by simp
    also have "\<dots> \<le> N * c" using that(1) by (intro mult_le_mono1) simp
    finally have "q * c + k < length xs" using assms(1) by (simp add: mult.commute)
    then show ?thesis using assms(2) by (rule props_js_array)
  qed
  then show ?thesis by (simp add: thresholded_def js_array_def)
qed

lemma simple_threshold_result:
  assumes "well_formed xs width height c"
  shows "\<exists>d. applySimpleThreshold (js_array xs) width height = Some d
           \<and> thresholded xs c (nat (width * height)) (nat (width * height)) d"
proof -
  from assms obtain W H where wh: "width = int W" "height = int H" "0 < W" "0 < H" "3 \<le> c"
    "length xs = c * (W * H)" "length xs < 2 ^ 32" "nat (width * height) = W * H"
    by (rule well_formed_nat)
  have ch: "channels_of (js_array xs) width height = key c"
    unfolding wh(1,2) using wh(3,4,6) by (rule channels_of_js_array)
  have start: "thresholded xs c (W * H) 0 (js_array xs)"
    using wh(6,7) by (rule thresholded_start)
  have "\<exists>d'. simple_loop (key c) (key (0 * c)) (js_array xs) = Some d'
          \<and> thresholded xs c (W * H) (W * H) d'"
    using wh(5,6,7) _ start by (rule simple_loop_result) simp
  moreover have "key (0 * c) = Num 0" by (simp add: key_def)
  ultimately show ?thesis
    by (simp add: applySimpleThreshold_def ch wh(8))
qed

subsection \<open>The second pass on an image of uniform intensity\<close>











lemma adaptive_threshold_unfold:
  assumes "width = int W" "height = int H" "0 < W" "0 < H" "length xs = c * (W * H)"
    and "adaptive_first_pass (js_array xs) width height = Inr (d, ii)"
  shows "applyAdaptiveThreshold (js_array xs) width height
         = Inr (secondPass ii (int W) (int H) (key c) (bracket width) d)"
proof -
  have ch: "channels_of (js_array xs) width height = key c"
    unfolding assms(1,2) using assms(3,4,5) by (rule channels_of_js_array)
  show ?thesis
    unfolding applyAdaptiveThreshold_def assms(6) ch by (simp add: assms(1,2))
qed





text \<open>
  Claim C4, as stated, fails: the test is \<open>v > 127\<close>, so the pixel \<open>(127, 127, 127)\<close>, whose
  mean is exactly \<open>127\<close>, becomes \<open>0\<close>.
\<close>

theorem simple_threshold_midpoint_counterexample:
  "map_option (\<lambda>d. elements d 3) (applySimpleThreshold (js_array [127, 127, 127]) 1 1)
     = Some [Num 0, Num 0, Num 0]"
  by code_simp

text \<open>
  Claim C4, amended: for every pixel of a pixel buffer with at least three channels,
  \<open>applySimpleThreshold\<close> returns and has written \<open>255\<close> into the first three channels of the
  pixel when the mean of these channels is strictly greater than \<open>127\<close>, and \<open>0\<close> otherwise.
\<close>

theorem simple_threshold_strictly_above_127:
  assumes "well_formed xs width height c" and "p < nat (width * height)" and "k < 3"
  shows "\<exists>d. applySimpleThreshold (js_array xs) width height = Some d
           \<and> js_get d (key (p * c + k)) = (if 127 < grey xs c p then Num 255 else Num 0)"
proof -
  from simple_threshold_result [OF assms(1)] obtain d where
    d: "applySimpleThreshold (js_array xs) width height = Some d"
    and t: "thresholded xs c (nat (width * height)) (nat (width * height)) d"
    by blast
  have "3 \<le> c" using assms(1) by (simp add: well_formed_def pixel_buffer_def)
  then have "k < c" using assms(3) by simp
  then have "js_get d (key (p * c + k)) = simple_value xs c p"
    using t assms(2,3) unfolding thresholded_def js_get_def by simp
  with d show ?thesis by (simp add: simple_value_def)
qed

text \<open>Claim C4, witness: a pixel of mean \<open>127\<close> and a pixel of mean above \<open>127\<close>.\<close>

theorem simple_threshold_strictly_above_127_witness:
  "(\<exists>d. applySimpleThreshold (js_array [127, 127, 127, 255, 127, 128, 127, 255]) 2 1 = Some d
       \<and> js_get d (key 0) = Num 0)
   \<and> (\<exists>d. applySimpleThreshold (js_array [127, 127, 127, 255, 127, 128, 127, 255]) 2 1 = Some d
       \<and> js_get d (key 4) = Num 255)"
proof -
  let ?xs = "[127, 127, 127, 255, 127, 128, 127, 255] :: rat list"
  have wf: "well_formed ?xs 2 1 4" by (simp add: well_formed_def pixel_buffer_def)
  show ?thesis
    using simple_threshold_strictly_above_127 [OF wf, of 0 0]
      simple_threshold_strictly_above_127 [OF wf, of 1 0]
    by (simp add: grey_def)
qed

subsection \<open>Both binarizers write only \<open>0\<close> and \<open>255\<close>\<close>

lemma alength_js_put_ge: "alength d \<le> alength (js_put d k v)"
  by (simp add: js_put_def split: option.splits)

lemma alength_put_rgb_ge: "alength d \<le> alength (put_rgb d k v)"
  unfolding put_rgb_def
  by (meson alength_js_put_ge order_trans)

lemma threshold_pixel_put:
  "\<exists>v. threshold_pixel d i = put_rgb d i v \<and> (v = Num 0 \<or> v = Num 255)"
  by (cases "js_lt (Num 127) (mean_rgb d i)") (auto simp: threshold_pixel_def Let_def)

lemma binarized_mono: "binarized c S d \<Longrightarrow> T \<subseteq> S \<Longrightarrow> binarized c T d"
  unfolding binarized_def by blast

lemma simple_loop_binarized:
  assumes c: "0 < c" and run: "simple_loop (key c) (key (p * c)) d = Some d'"
    and start: "binarized c {q. q < p} d" "c * N \<le> alength d"
  shows "binarized c {q. q < N} d'"
proof -
  let ?P = "\<lambda>ch i d d'. \<forall>p. ch = key c \<and> i = key (p * c) \<and> binarized c {q. q < p} d
                \<and> c * N \<le> alength d \<longrightarrow> binarized c {q. q < N} d'"
  have "?P (key c) (key (p * c)) d d'"
  proof (rule simple_loop.raw_induct [where P = ?P, OF _ run])
    fix loop ch i d d'
    assume IH: "\<And>ch i d d'. loop ch i d = Some d' \<Longrightarrow> ?P ch i d d'"
      and body: "(if js_lt i (Num (of_nat (alength d)))
                  then loop ch (js_add i ch) (threshold_pixel d i) else Some d) = Some d'"
    show "?P ch i d d'"
    proof (intro allI impI, elim conjE)
      fix p
      assume ch: "ch = key c" and i: "i = key (p * c)"
        and b: "binarized c {q. q < p} d" and len: "c * N \<le> alength d"
      show "binarized c {q. q < N} d'"
      proof (cases "js_lt i (Num (of_nat (alength d)))")
        case True
        with body have rec: "loop ch (js_add i ch) (threshold_pixel d i) = Some d'" by simp
        obtain v where v: "threshold_pixel d i = put_rgb d i v" "v = Num 0 \<or> v = Num 255"
          using threshold_pixel_put by blast
        have "binarized c (insert p {q. q < p}) (put_rgb d (key (p * c)) v)"
          using b v(2) by (rule binarized_put)
        moreover have "insert p {q. q < p} = {q. q < Suc p}" by auto
        ultimately have "binarized c {q. q < Suc p} (put_rgb d i v)"
          unfolding i by simp
        then have b': "binarized c {q. q < Suc p} (threshold_pixel d i)"
          unfolding v(1) .
        have len': "c * N \<le> alength (threshold_pixel d i)"
          using len alength_put_rgb_ge [of d i v] by (simp add: v(1))
        have "js_add i ch = key (Suc p * c)" by (simp add: i ch key_add_key)
        with IH [OF rec] ch b' len' show ?thesis by blast
      next
        case False
        with body have d': "d' = d" by simp
        from False have "alength d \<le> p * c" by (simp add: i js_lt_key)
        with len have "c * N \<le> p * c" by (rule order_trans)
        then have "c * N \<le> c * p" by (simp only: mult.commute)
        then have "N \<le> p" using c by simp
        then have "{q. q < N} \<subseteq> {q. q < p}" by auto
        with b show ?thesis unfolding d' by (rule binarized_mono)
      qed
    qed
  qed
  with start show ?thesis by blast
qed

lemma adaptive_first_pass_returns:
  assumes "0 \<le> width * height" "width * height < 2 ^ 32"
  shows "\<exists>d ii. adaptive_first_pass data width height = Inr (d, ii)"
proof -
  obtain ii0 where "new_array (width * height) (Num 0) = Inr ii0"
    using new_array_ok [OF assms] by blast
  then show ?thesis
    by (simp add: adaptive_first_pass_def)
qed


text \<open>
  Claim C5: for every pixel buffer of positive dimensions whose length is a positive
  multiple \<open>c\<close> of \<open>width * height\<close>, \<open>applyAdaptiveThreshold\<close> returns and
  \<open>applySimpleThreshold\<close>, if it returns, does so in a state where each of the three colour
  channels of each pixel holds \<open>0\<close> or \<open>255\<close>; \<open>applySimpleThreshold\<close> returns when the pixels
  have at least three channels.
\<close>

theorem binarizers_write_0_or_255:
  assumes "pixel_buffer xs width height c" and "p < nat (width * height)" and "k < 3"
  shows "(\<exists>d. applyAdaptiveThreshold (js_array xs) width height = Inr d
            \<and> (js_get d (key (p * c + k)) = Num 0 \<or> js_get d (key (p * c + k)) = Num 255))
       \<and> (\<forall>d. applySimpleThreshold (js_array xs) width height = Some d
            \<longrightarrow> js_get d (key (p * c + k)) = Num 0 \<or> js_get d (key (p * c + k)) = Num 255)
       \<and> (3 \<le> c \<longrightarrow> (\<exists>d. applySimpleThreshold (js_array xs) width height = Some d))"
proof -
  from assms(1) obtain W H where wh: "width = int W" "height = int H" "0 < W" "0 < H" "0 < c"
    "length xs = c * (W * H)" "length xs < 2 ^ 32" "nat (width * height) = W * H"
    "W * H < 2 ^ 32"
    by (rule pixel_buffer_nat)
  have pN: "p < W * H" using assms(2) unfolding wh(8) .
  have ch: "channels_of (js_array xs) width height = key c"
    unfolding wh(1,2) using wh(3,4,6) by (rule channels_of_js_array)
  have "int (W * H) < 2 ^ 32" using wh(9) by (simp only: of_nat_less_numeral_power_cancel_iff)
  then have "0 \<le> width * height" "width * height < 2 ^ 32" by (simp_all add: wh(1,2))
  then obtain d1 ii where
    r: "adaptive_first_pass (js_array xs) width height = Inr (d1, ii)"
    using adaptive_first_pass_returns by blast
  let ?d = "secondPass ii (int W) (int H) (key c) (bracket width) d1"
  have "binarized c (visited W H W 0) ?d" by (rule second_pass_binarized)
  moreover from pN have "p \<in> visited W H W 0" using wh(3) by (intro visited_all)
  ultimately have "js_get ?d (key (p * c + k)) = Num 0 \<or> js_get ?d (key (p * c + k)) = Num 255"
    using assms(3) unfolding binarized_def js_get_def by blast
  then have adaptive: "\<exists>d. applyAdaptiveThreshold (js_array xs) width height = Inr d
            \<and> (js_get d (key (p * c + k)) = Num 0 \<or> js_get d (key (p * c + k)) = Num 255)"
    using adaptive_threshold_unfold [OF wh(1-4,6) r] by simp
  have simple: "js_get d (key (p * c + k)) = Num 0 \<or> js_get d (key (p * c + k)) = Num 255"
    if "applySimpleThreshold (js_array xs) width height = Some d" for d
  proof -
    from that have run: "simple_loop (key c) (key (0 * c)) (js_array xs) = Some d"
      by (simp add: applySimpleThreshold_def ch key_def)
    have "binarized c {q. q < 0} (js_array xs)" by (simp add: binarized_def)
    moreover have "c * (W * H) \<le> alength (js_array xs)" by (simp add: js_array_def wh(6))
    ultimately have "binarized c {q. q < W * H} d"
      by (rule simple_loop_binarized [OF wh(5) run])
    then show ?thesis using pN assms(3) unfolding binarized_def js_get_def by blast
  qed
  have returns: "\<exists>d. applySimpleThreshold (js_array xs) width height = Some d" if "3 \<le> c"
  proof -
    have "well_formed xs width height c" using assms(1) that by (simp add: well_formed_def)
    from simple_threshold_result [OF this] show ?thesis by blast
  qed
  show ?thesis using adaptive simple returns by blast
qed


text \<open>Claim C5, witness: the blue channel of the second of two pixels with four channels.\<close>

theorem binarizers_write_0_or_255_witness:
  "(\<exists>d. applyAdaptiveThreshold (js_array [10, 200, 30, 255, 20, 250, 20, 255]) 2 1 = Inr d
       \<and> (js_get d (key 6) = Num 0 \<or> js_get d (key 6) = Num 255))
   \<and> (\<exists>d. applySimpleThreshold (js_array [10, 200, 30, 255, 20, 250, 20, 255]) 2 1 = Some d
       \<and> (js_get d (key 6) = Num 0 \<or> js_get d (key 6) = Num 255))"
proof -
  let ?xs = "[10, 200, 30, 255, 20, 250, 20, 255] :: rat list"
  have v: "pixel_buffer ?xs 2 1 4" by (simp add: pixel_buffer_def)
  show ?thesis
    using binarizers_write_0_or_255 [OF v, of 1 2] by auto
qed

subsection \<open>Dimensions that are not positive\<close>

lemma column_bitmap_no_rows:
  assumes "height \<le> 0"
  shows "column_bitmap data width height = ((True, True), replicate (nat width) False)"
proof -
  let ?P = "\<lambda>k st. st = ((True, True), replicate k False)"
  have step: "?P (Suc k) (scan_col data width height ch k t)" if "?P k t" for k t ch
    using that assms by (simp add: scan_col_def replicate_append_same)
  have "?P (nat width) (fold (scan_col data width height (channels_of data width height))
                          [0..<nat width] ((True, True), []))"
    by (rule fold_upt_invariant [where P = ?P]) (simp_all add: step)
  then show ?thesis by (simp add: column_bitmap_def)
qed

lemma getLines_not_positive:
  assumes "width \<le> 0 \<or> height \<le> 0"
  shows "getLines data width height = []"
proof (cases "width \<le> 0")
  case True
  then show ?thesis by (simp add: getLines_def column_bitmap_def run_lengths_def)
next
  case False
  then have h: "height \<le> 0" and w: "0 < nat width" "int (nat width) = width"
    using assms by simp_all
  have "run_lengths (replicate (nat width) False) (int (nat width)) = [nat width + 1]"
    using w(1) by (rule run_lengths_uniform)
  then have "run_lengths (replicate (nat width) False) width = [nat width + 1]"
    unfolding w(2) .
  then show ?thesis
    by (simp add: getLines_def column_bitmap_no_rows [OF h])
qed

lemma fold_no_change: "(\<And>x s. f x s = s) \<Longrightarrow> fold f xs s = s"
  by (induction xs) simp_all

lemma adaptive_threshold_not_positive:
  assumes "width \<le> 0 \<or> height \<le> 0" "0 \<le> width * height" "width * height < 2 ^ 32"
  shows "applyAdaptiveThreshold data width height = Inr data"
proof -
  obtain ii where ii: "new_array (width * height) (Num 0) = Inr ii"
    using new_array_ok [OF assms(2,3)] by blast
  have rows: "width \<le> 0 \<or> nat height = 0"
  proof (cases "width \<le> 0")
    case False
    then have "0 < width" "height \<le> 0" using assms(1) by simp_all
    moreover from this assms(2) have "\<not> height < 0"
      by (metis mult_pos_neg not_le)
    ultimately show ?thesis by simp
  qed simp
  have p1: "firstPass width height ch st = st" for ch st
  proof (cases "width \<le> 0")
    case True
    then show ?thesis by (simp add: firstPass_def)
  next
    case False
    then have "nat height = 0" using rows by simp
    then have col: "grey_column width height ch i s = s" for i s
      by (simp add: grey_column_def)
    show ?thesis unfolding firstPass_def by (rule fold_no_change) (rule col)
  qed
  have p2: "secondPass ii width height ch s2 d = d" for ch s2 d
  proof (cases "width \<le> 0")
    case True
    then show ?thesis by (simp add: secondPass_def)
  next
    case False
    then have "nat height = 0" using rows by simp
    then have inner: "fold (adaptive_pixel ii width height ch s2 i) [0..<nat height] s = s" for i s
      by simp
    show ?thesis unfolding secondPass_def by (rule fold_no_change) (rule inner)
  qed
  show ?thesis
    by (simp add: applyAdaptiveThreshold_def adaptive_first_pass_def ii p1 p2)
qed

lemma adaptive_threshold_range_error:
  "applyAdaptiveThreshold data width height = Inl RangeError
     \<longleftrightarrow> width * height < 0 \<or> 2 ^ 32 \<le> width * height"
  by (auto simp: applyAdaptiveThreshold_def adaptive_first_pass_def new_array_def
      split: sum.splits prod.splits)

lemma simple_threshold_zero_area:
  assumes "0 \<le> width" "0 \<le> height" "width * height = 0"
  shows "applySimpleThreshold data width height
         = Some (if alength data = 0 then data else threshold_pixel data (Num 0))"
proof (cases "alength data = 0")
  case True
  then have "simple_loop ch (Num 0) data = Some data" for ch
    by (subst simple_loop.simps) simp
  then show ?thesis using True by (simp add: applySimpleThreshold_def)
next
  case False
  have ch: "channels_of data width height = PInf"
    using assms False by (auto simp: channels_of_def)
  have "simple_loop PInf (Num 0) data = simple_loop PInf PInf (threshold_pixel data (Num 0))"
    using False by (subst simple_loop.simps) simp
  also have "\<dots> = Some (threshold_pixel data (Num 0))"
    by (subst simple_loop.simps) simp
  finally show ?thesis using False by (simp add: applySimpleThreshold_def ch)
qed

text \<open>
  Claim C6, as stated, fails: there is no check of the dimensions.  With a width and height
  of \<open>0\<close>, with a negative height, and with four elements for three pixels, \<open>getLines\<close>
  returns an empty sequence; with a width and height of \<open>0\<close> the binarizers return the
  buffer; with five elements for two pixels \<open>applySimpleThreshold\<close> returns a buffer of which
  it has overwritten the first three elements.
\<close>

theorem invalid_dimensions_accepted_counterexample:
  "getLines (js_array [255, 255, 255, 255]) 0 0 = []
   \<and> getLines (js_array [255, 255, 255, 255]) 1 (- 1) = []
   \<and> getLines (js_array [255, 255, 255, 255]) 1 3 = []
   \<and> applyAdaptiveThreshold (js_array [255, 255, 255, 255]) 0 0 = Inr (js_array [255, 255, 255, 255])
   \<and> applySimpleThreshold (js_array []) 0 0 = Some (js_array [])
   \<and> map_option (\<lambda>d. elements d 5) (applySimpleThreshold (js_array [200, 127, 127, 128, 127]) 2 1)
       = Some [Num 255, Num 255, Num 255, Num 128, Num 127]"
proof -
  have "getLines (js_array [255, 255, 255, 255]) 0 0 = []"
    and "getLines (js_array [255, 255, 255, 255]) 1 (- 1) = []"
    and "getLines (js_array [255, 255, 255, 255]) 1 3 = []"
    by code_simp+
  moreover have "applyAdaptiveThreshold (js_array [255, 255, 255, 255]) 0 0
                 = Inr (js_array [255, 255, 255, 255])"
    by (simp add: applyAdaptiveThreshold_def adaptive_first_pass_def new_array_def
        firstPass_def secondPass_def)
  moreover have "applySimpleThreshold (js_array []) 0 0 = Some (js_array [])"
    by (subst applySimpleThreshold_def, subst simple_loop.simps) (simp add: js_array_def)
  moreover have "map_option (\<lambda>d. elements d 5)
                   (applySimpleThreshold (js_array [200, 127, 127, 128, 127]) 2 1)
                 = Some [Num 255, Num 255, Num 255, Num 128, Num 127]"
    by code_simp
  ultimately show ?thesis by blast
qed

text \<open>
  Claim C6, amended: the functions do not validate their arguments and none raises an
  error for the dimensions as such.  When the width or the height is not positive,
  \<open>getLines\<close> returns the empty sequence.  \<open>applyAdaptiveThreshold\<close> raises the \<open>RangeError\<close> of
  the array constructor exactly when \<open>width * height\<close> is negative or at least \<open>2^32\<close>, and
  returns the buffer unchanged when the width or the height is not positive and
  the product is in range.  When the width or the height is \<open>0\<close> and none is negative,
  \<open>applySimpleThreshold\<close> returns the buffer, with the first pixel thresholded if the buffer
  is not empty.
\<close>

theorem invalid_dimensions_not_rejected:
  "(width \<le> 0 \<or> height \<le> 0 \<longrightarrow> getLines data width height = [])
   \<and> (applyAdaptiveThreshold data width height = Inl RangeError
        \<longleftrightarrow> width * height < 0 \<or> 2 ^ 32 \<le> width * height)
   \<and> ((width \<le> 0 \<or> height \<le> 0) \<and> 0 \<le> width * height \<and> width * height < 2 ^ 32
        \<longrightarrow> applyAdaptiveThreshold data width height = Inr data)
   \<and> (0 \<le> width \<and> 0 \<le> height \<and> width * height = 0
        \<longrightarrow> applySimpleThreshold data width height
            = Some (if alength data = 0 then data else threshold_pixel data (Num 0)))"
  using getLines_not_positive [of width height data]
    adaptive_threshold_range_error [of data width height]
    adaptive_threshold_not_positive [of width height data]
    simple_threshold_zero_area [of width height data]
  by blast

text \<open>Claim C6, witness: a width of \<open>0\<close>, and a negative width.\<close>

theorem invalid_dimensions_not_rejected_witness:
  "getLines (js_array [255, 255, 255, 255]) 0 2 = []
   \<and> applyAdaptiveThreshold (js_array [255, 255, 255, 255]) 0 2 = Inr (js_array [255, 255, 255, 255])
   \<and> applyAdaptiveThreshold (js_array [255, 255, 255, 255]) (- 1) 2 = Inl RangeError
   \<and> applySimpleThreshold (js_array []) 0 2 = Some (js_array [])"
  using invalid_dimensions_not_rejected [of 0 2 "js_array [255, 255, 255, 255]"]
    invalid_dimensions_not_rejected [of "- 1" 2 "js_array [255, 255, 255, 255]"]
    invalid_dimensions_not_rejected [of 0 2 "js_array []"]
  by (simp add: js_array_def)

section \<open>Properties of \<open>isUrl\<close>\<close>

text \<open>
  Claim C10: for every string, the empty one included, the left disjunct
  \<open>!s[0] === '#'\<close> is false, since it compares a boolean with a string, and \<open>isUrl\<close>
  returns what the test of the regular expression returns.
\<close>

theorem isUrl_is_regexp_test:
  "\<not> strict_equal (js_not (char_at s 0)) (Str ''#'') \<and> isUrl s = regexp_test url_regexp s"
  by (simp add: isUrl_def js_not_def)

end
